theory Spec2Isabelle
  imports Main "HOL-Library.Multiset"
begin

section \<open>The password generator of \<^verbatim>\<open>main.py\<close>\<close>

text \<open>
  The development embeds the two functions of the generator core, \<^verbatim>\<open>build_charset\<close> and
  \<^verbatim>\<open>generate_password\<close>, together with the two primitives of Python's \<^verbatim>\<open>secrets\<close>
  module they call. Python strings are \<open>string\<close>s, the length argument is an unbounded
  \<open>int\<close>, and every \<^verbatim>\<open>raise\<close> is an \<open>Inl\<close> of the result.
\<close>

subsection \<open>Exceptions\<close>

text \<open>
  The source raises \<^verbatim>\<open>ValueError\<close> with three different messages. \<^verbatim>\<open>IndexError\<close> is what
  \<^verbatim>\<open>secrets.choice\<close> raises on an empty sequence and what a list index out of range
  raises.
\<close>

datatype error = ValueError string | IndexError

abbreviation NoCategorySelected :: error where
  "NoCategorySelected \<equiv> ValueError ''At least one character type must be selected.''"

abbreviation AllPoolsEmptied :: error where
  "AllPoolsEmptied \<equiv>
     ValueError ''Character sets became empty after excluding ambiguous characters.''"

abbreviation InvalidLength :: error where
  "InvalidLength \<equiv> ValueError ''Length must be a positive integer.''"

subsection \<open>Constants\<close>

text \<open>
  \<^verbatim>\<open>string.ascii_lowercase\<close>, \<^verbatim>\<open>string.ascii_uppercase\<close>, \<^verbatim>\<open>string.digits\<close> and the symbol
  literal of line 35.
\<close>

definition ascii_lowercase :: string where
  "ascii_lowercase = ''abcdefghijklmnopqrstuvwxyz''"

definition ascii_uppercase :: string where
  "ascii_uppercase = ''ABCDEFGHIJKLMNOPQRSTUVWXYZ''"

definition digits :: string where
  "digits = ''0123456789''"

definition symbols :: string where
  "symbols = ''!@#$%^&*()-_=+[]{}<>?/''"

text \<open>
  \<^verbatim>\<open>AMBIGUOUS = set("Il1O0`'\".,;:")\<close>: the letters I, l, O, the digits 1, 0, the
  backquote (0x60), the single quote (0x27), the double quote (0x22) and the four
  punctuation marks. The three quote characters are written by their codes.
\<close>

definition AMBIGUOUS :: "char set" where
  "AMBIGUOUS = set (''Il1O0'' @ [CHR 0x60, CHR 0x27, CHR 0x22] @ ''.,;:'')"

subsection \<open>The randomness source\<close>

text \<open>
  The operating system's generator is the only state the core reads. It is modelled as
  the infinite sequence of raw draws still to come; a call consumes the head.
  \<^verbatim>\<open>secrets.randbelow(n)\<close> returns a number in \<open>[0, n)\<close> and raises \<^verbatim>\<open>ValueError\<close> for
  \<open>n \<le> 0\<close>; reducing the raw draw modulo \<open>n\<close> reaches every number of the range, so a
  statement for all sources covers every outcome of the call.
\<close>

type_synonym rng = "nat \<Rightarrow> nat"

definition advance :: "rng \<Rightarrow> rng" where
  "advance r = (\<lambda>k. r (Suc k))"

definition randbelow :: "nat \<Rightarrow> rng \<Rightarrow> error + (nat \<times> rng)" where
  "randbelow n r =
     (if n = 0 then Inl (ValueError ''Upper bound must be positive.'')
      else Inr (r 0 mod n, advance r))"

text \<open>\<^verbatim>\<open>secrets.choice(seq)\<close> is \<^verbatim>\<open>seq[randbelow(len(seq))]\<close>, and \<^verbatim>\<open>IndexError\<close> on \<open>[]\<close>.\<close>

definition choice :: "'a list \<Rightarrow> rng \<Rightarrow> error + ('a \<times> rng)" where
  "choice seq r =
     (if seq = [] then Inl IndexError
      else case randbelow (length seq) r of
             Inl e \<Rightarrow> Inl e
           | Inr (k, r') \<Rightarrow> Inr (seq ! k, r'))"

subsection \<open>\<^verbatim>\<open>build_charset\<close>\<close>

text \<open>
  Lines 25 to 44. The function reads the module-level variable \<^verbatim>\<open>AMBIGUOUS\<close> when it is
  called; \<open>build_charset_with\<close> takes the value of that variable as its first argument
  and \<open>build_charset\<close> is the function at the value the module assigns.
\<close>

definition build_charset_with ::
  "char set \<Rightarrow> bool \<Rightarrow> bool \<Rightarrow> bool \<Rightarrow> bool \<Rightarrow> bool \<Rightarrow> error + string list" where
  "build_charset_with ambiguous use_lower use_upper use_digits use_symbols exclude_ambiguous =
     (let parts = [];
          parts = (if use_lower then parts @ [ascii_lowercase] else parts);
          parts = (if use_upper then parts @ [ascii_uppercase] else parts);
          parts = (if use_digits then parts @ [digits] else parts);
          parts = (if use_symbols then parts @ [symbols] else parts)
      in if parts = [] then Inl NoCategorySelected
         else
           let parts = (if exclude_ambiguous
                        then map (filter (\<lambda>ch. ch \<notin> ambiguous)) parts else parts);
               parts = filter (\<lambda>p. p \<noteq> []) parts
           in if parts = [] then Inl AllPoolsEmptied else Inr parts)"

definition build_charset ::
  "bool \<Rightarrow> bool \<Rightarrow> bool \<Rightarrow> bool \<Rightarrow> bool \<Rightarrow> error + string list" where
  "build_charset = build_charset_with AMBIGUOUS"

subsection \<open>\<^verbatim>\<open>generate_password\<close>\<close>

text \<open>
  The comprehension \<^verbatim>\<open>secrets.choice(pool) for _ in range(n)\<close> of lines 65 and 72: \<open>n\<close>
  draws from the same pool, in order.
\<close>

fun draw_from_pool :: "'a list \<Rightarrow> nat \<Rightarrow> rng \<Rightarrow> error + ('a list \<times> rng)" where
  "draw_from_pool pool 0 r = Inr ([], r)"
| "draw_from_pool pool (Suc n) r =
     (case choice pool r of
        Inl e \<Rightarrow> Inl e
      | Inr (c, r') \<Rightarrow>
          (case draw_from_pool pool n r' of
             Inl e \<Rightarrow> Inl e
           | Inr (cs, r'') \<Rightarrow> Inr (c # cs, r'')))"

text \<open>The comprehension \<^verbatim>\<open>[secrets.choice(part) for part in parts]\<close> of line 68.\<close>

fun draw_from_each :: "'a list list \<Rightarrow> rng \<Rightarrow> error + ('a list \<times> rng)" where
  "draw_from_each [] r = Inr ([], r)"
| "draw_from_each (part # parts) r =
     (case choice part r of
        Inl e \<Rightarrow> Inl e
      | Inr (c, r') \<Rightarrow>
          (case draw_from_each parts r' of
             Inl e \<Rightarrow> Inl e
           | Inr (cs, r'') \<Rightarrow> Inr (c # cs, r'')))"

text \<open>
  The loop of lines 76 to 78, \<^verbatim>\<open>for i in range(len(password_chars)-1, 0, -1)\<close>: the first
  argument is the index \<open>i\<close> the loop is at, and the loop ends below index 1. The tuple
  assignment reads both elements before it writes either; an index out of range raises
  \<^verbatim>\<open>IndexError\<close>.
\<close>

fun fisher_yates :: "nat \<Rightarrow> 'a list \<Rightarrow> rng \<Rightarrow> error + ('a list \<times> rng)" where
  "fisher_yates 0 password_chars r = Inr (password_chars, r)"
| "fisher_yates (Suc i') password_chars r =
     (let i = Suc i' in
      case randbelow (i + 1) r of
        Inl e \<Rightarrow> Inl e
      | Inr (j, r') \<Rightarrow>
          if i < length password_chars \<and> j < length password_chars
          then fisher_yates i'
                 (password_chars[i := password_chars ! j, j := password_chars ! i]) r'
          else Inl IndexError)"

text \<open>
  Lines 46 to 80. The result is the password and the randomness source as the call
  leaves it.
\<close>

definition generate_password ::
  "int \<Rightarrow> bool \<Rightarrow> bool \<Rightarrow> bool \<Rightarrow> bool \<Rightarrow> bool \<Rightarrow> rng \<Rightarrow> error + (string \<times> rng)" where
  "generate_password len use_lower use_upper use_digits use_symbols exclude_ambiguous r =
     (if len \<le> 0 then Inl InvalidLength
      else
        (case build_charset use_lower use_upper use_digits use_symbols exclude_ambiguous of
          Inl e \<Rightarrow> Inl e
        | Inr parts \<Rightarrow>
            let pool = concat parts in
            if len < int (length parts) then draw_from_pool pool (nat len) r
            else
              (case draw_from_each parts r of
                 Inl e \<Rightarrow> Inl e
               | Inr (password_chars, r1) \<Rightarrow>
                   (let remaining = len - int (length password_chars) in
                    (case draw_from_pool pool (nat remaining) r1 of
                       Inl e \<Rightarrow> Inl e
                     | Inr (filler, r2) \<Rightarrow>
                         (let password_chars = password_chars @ filler in
                          fisher_yates (length password_chars - 1) password_chars r2))))))"

subsection \<open>The charset builder as the specification words it\<close>

text \<open>
  The specification describes the result of the builder by what it contains: the
  categories in declaration order (lowercase, uppercase, digits, symbols), each with its
  flag; for each enabled category its reference alphabet, with the ambiguous characters
  removed (the remaining ones in their order) when exclusion is on; and of these pools
  the ones that are not empty. These three definitions follow that wording and are
  compared with \<open>build_charset\<close> below.
\<close>

definition categories :: "bool \<Rightarrow> bool \<Rightarrow> bool \<Rightarrow> bool \<Rightarrow> (bool \<times> string) list" where
  "categories use_lower use_upper use_digits use_symbols =
     [(use_lower, ascii_lowercase), (use_upper, ascii_uppercase),
      (use_digits, digits), (use_symbols, symbols)]"

definition remove_ambiguous :: "string \<Rightarrow> string" where
  "remove_ambiguous alphabet = filter (\<lambda>ch. ch \<notin> AMBIGUOUS) alphabet"

definition surviving_pools_spec :: "bool \<Rightarrow> bool \<Rightarrow> bool \<Rightarrow> bool \<Rightarrow> bool \<Rightarrow> string list" where
  "surviving_pools_spec use_lower use_upper use_digits use_symbols exclude_ambiguous =
     filter (\<lambda>pool. pool \<noteq> [])
       (map (\<lambda>(enabled, alphabet).
               if exclude_ambiguous then remove_ambiguous alphabet else alphabet)
          (filter fst (categories use_lower use_upper use_digits use_symbols)))"

section \<open>Auxiliary facts\<close>

subsection \<open>The draws\<close>

lemma randbelow_positive: "0 < n \<Longrightarrow> randbelow n r = Inr (r 0 mod n, advance r)"
  by (simp add: randbelow_def)

lemma choice_nonempty:
  "seq \<noteq> [] \<Longrightarrow> choice seq r = Inr (seq ! (r 0 mod length seq), advance r)"
  by (simp add: choice_def randbelow_positive)

lemma choice_empty: "choice [] r = Inl IndexError"
  by (simp add: choice_def)

lemma draw_from_pool_explicit:
  "pool \<noteq> [] \<Longrightarrow>
   draw_from_pool pool n r =
     Inr (map (\<lambda>k. pool ! (r k mod length pool)) [0..<n], \<lambda>k. r (n + k))"
proof (induction n arbitrary: r)
  case 0
  then show ?case by simp
next
  case (Suc n)
  have "draw_from_pool pool n (advance r) =
      Inr (map (\<lambda>k. pool ! (advance r k mod length pool)) [0..<n], \<lambda>k. advance r (n + k))"
    using Suc by blast
  then show ?case
    using Suc.prems by (simp add: choice_nonempty map_upt_Suc advance_def del: upt_Suc)
qed

lemma draw_from_pool_props:
  assumes "pool \<noteq> []"
  obtains cs r' where "draw_from_pool pool n r = Inr (cs, r')"
    and "length cs = n" and "set cs \<subseteq> set pool"
proof -
  let ?cs = "map (\<lambda>k. pool ! (r k mod length pool)) [0..<n]"
  have "set ?cs \<subseteq> set pool"
    using assms by (auto simp del: upt_Suc)
  moreover have "length ?cs = n" by simp
  ultimately show thesis
    using that draw_from_pool_explicit [OF assms, of n r] by blast
qed

lemma draw_from_each_props:
  "\<forall>p \<in> set parts. p \<noteq> [] \<Longrightarrow>
   \<exists>cs r'. draw_from_each parts r = Inr (cs, r') \<and> list_all2 (\<lambda>c p. c \<in> set p) cs parts"
proof (induction parts arbitrary: r)
  case Nil
  then show ?case by simp
next
  case (Cons part parts)
  from Cons.prems have ne: "part \<noteq> []" and rest: "\<forall>p \<in> set parts. p \<noteq> []"
    by simp_all
  obtain cs r' where cs: "draw_from_each parts (advance r) = Inr (cs, r')"
    "list_all2 (\<lambda>c p. c \<in> set p) cs parts"
    using Cons.IH [OF rest] by blast
  have "part ! (r 0 mod length part) \<in> set part"
    using ne by simp
  then show ?case
    using ne cs by (simp add: choice_nonempty)
qed

lemma fisher_yates_permutes:
  "i < length xs \<Longrightarrow> \<exists>ys r'. fisher_yates i xs r = Inr (ys, r') \<and> mset ys = mset xs"
proof (induction i arbitrary: xs r)
  case 0
  then show ?case by simp
next
  case (Suc i)
  let ?j = "r 0 mod (Suc i + 1)"
  let ?xs = "xs[Suc i := xs ! ?j, ?j := xs ! Suc i]"
  have j: "?j < length xs"
    using Suc.prems proof -
    have "?j < Suc i + 1" by simp
    then show ?thesis using Suc.prems by linarith
  qed
  have "i < length ?xs" using Suc.prems by simp
  then obtain ys r' where ys: "fisher_yates i ?xs (advance r) = Inr (ys, r')" "mset ys = mset ?xs"
    using Suc.IH by blast
  have "mset ?xs = mset xs"
    using Suc.prems j by (simp add: mset_swap)
  with ys show ?case
    using Suc.prems j by (simp add: randbelow_positive)
qed

subsection \<open>What \<^verbatim>\<open>build_charset\<close> returns\<close>

lemma build_charset_with_nonempty:
  "build_charset_with amb ul uu ud us ex = Inr parts \<Longrightarrow>
   parts \<noteq> [] \<and> (\<forall>p \<in> set parts. p \<noteq> [])"
  unfolding build_charset_with_def Let_def
  by (simp split: if_splits) auto

lemma build_charset_with_excluded:
  "build_charset_with amb ul uu ud us True = Inr parts \<Longrightarrow> \<forall>p \<in> set parts. set p \<inter> amb = {}"
  unfolding build_charset_with_def Let_def
  by (simp split: if_splits) auto

subsection \<open>The pools of the module's constants\<close>

lemma lowercase_unambiguous:
  "filter (\<lambda>ch. ch \<notin> AMBIGUOUS) ascii_lowercase = ''abcdefghijkmnopqrstuvwxyz''"
  by (simp add: AMBIGUOUS_def ascii_lowercase_def)

lemma uppercase_unambiguous:
  "filter (\<lambda>ch. ch \<notin> AMBIGUOUS) ascii_uppercase = ''ABCDEFGHJKLMNPQRSTUVWXYZ''"
  by (simp add: AMBIGUOUS_def ascii_uppercase_def)

lemma digits_unambiguous:
  "filter (\<lambda>ch. ch \<notin> AMBIGUOUS) digits = ''23456789''"
  by (simp add: AMBIGUOUS_def digits_def)

lemma symbols_unambiguous:
  "filter (\<lambda>ch. ch \<notin> AMBIGUOUS) symbols = symbols"
  by (simp add: AMBIGUOUS_def symbols_def)

lemma alphabets_nonempty:
  "ascii_lowercase \<noteq> []" "ascii_uppercase \<noteq> []" "digits \<noteq> []" "symbols \<noteq> []"
  by (simp_all add: ascii_lowercase_def ascii_uppercase_def digits_def symbols_def)

lemmas unambiguous =
  lowercase_unambiguous uppercase_unambiguous digits_unambiguous symbols_unambiguous

lemma build_charset_no_category:
  "build_charset_with amb False False False False ex = Inl NoCategorySelected"
  by (simp add: build_charset_with_def)

lemma build_charset_succeeds:
  assumes "ul \<or> uu \<or> ud \<or> us"
  shows "\<exists>parts. build_charset ul uu ud us ex = Inr parts"
  using assms alphabets_nonempty
  unfolding build_charset_def build_charset_with_def Let_def
  by (cases ul; cases uu; cases ud; cases us; cases ex) (simp_all add: unambiguous)

lemma build_charset_with_selected:
  assumes "build_charset_with amb ul uu ud us ex = Inr parts" and "c \<in> set (concat parts)"
  shows "(ul \<and> c \<in> set ascii_lowercase) \<or> (uu \<and> c \<in> set ascii_uppercase) \<or>
         (ud \<and> c \<in> set digits) \<or> (us \<and> c \<in> set symbols)"
  using assms unfolding build_charset_with_def Let_def
  by (cases ul; cases uu; cases ud; cases us; cases ex) (auto split: if_splits)

subsection \<open>The two branches of \<^verbatim>\<open>generate_password\<close>\<close>

lemma generate_password_short:
  assumes "build_charset ul uu ud us ex = Inr parts" and "0 < len"
    and "len < int (length parts)"
  shows "generate_password len ul uu ud us ex r =
           Inr (map (\<lambda>k. concat parts ! (r k mod length (concat parts))) [0..<nat len],
                \<lambda>k. r (nat len + k))"
proof -
  have "parts \<noteq> []" "\<forall>p \<in> set parts. p \<noteq> []"
    using assms(1) build_charset_with_nonempty unfolding build_charset_def by blast+
  then have "concat parts \<noteq> []" by (cases parts) auto
  then show ?thesis
    using assms by (simp add: generate_password_def draw_from_pool_explicit)
qed

lemma generate_password_long:
  assumes "build_charset ul uu ud us ex = Inr parts" and "int (length parts) \<le> len"
  shows "\<exists>cs filler pw r'. generate_password len ul uu ud us ex r = Inr (pw, r') \<and>
           mset pw = mset (cs @ filler) \<and> list_all2 (\<lambda>c p. c \<in> set p) cs parts \<and>
           length filler = nat (len - int (length parts)) \<and> set filler \<subseteq> set (concat parts)"
proof -
  have ne: "parts \<noteq> []" "\<forall>p \<in> set parts. p \<noteq> []"
    using assms(1) build_charset_with_nonempty unfolding build_charset_def by blast+
  then have pool: "concat parts \<noteq> []" by (cases parts) auto
  from ne(1) assms(2) have pos: "0 < len" by (cases parts) auto
  obtain cs r1 where cs: "draw_from_each parts r = Inr (cs, r1)"
    "list_all2 (\<lambda>c p. c \<in> set p) cs parts"
    using draw_from_each_props [OF ne(2)] by blast
  then have len_cs: "length cs = length parts"
    by (simp add: list_all2_lengthD)
  obtain filler r2 where filler:
    "draw_from_pool (concat parts) (nat (len - int (length cs))) r1 = Inr (filler, r2)"
    "length filler = nat (len - int (length cs))" "set filler \<subseteq> set (concat parts)"
    using draw_from_pool_props [OF pool] by blast
  have "length (cs @ filler) - 1 < length (cs @ filler)"
    using ne(1) len_cs by (cases cs) auto
  then obtain pw r' where pw:
    "fisher_yates (length (cs @ filler) - 1) (cs @ filler) r2 = Inr (pw, r')"
    "mset pw = mset (cs @ filler)"
    using fisher_yates_permutes by blast
  have "generate_password len ul uu ud us ex r = Inr (pw, r')"
    using assms pos cs(1) filler(1) pw(1) len_cs
    by (simp add: generate_password_def Let_def)
  then show ?thesis
    using pw(2) cs(2) filler(2,3) len_cs by auto
qed

lemma generate_password_result:
  assumes "generate_password len ul uu ud us ex r = Inr (pw, r')"
  obtains parts where "build_charset ul uu ud us ex = Inr parts" and "0 < len"
    and "length pw = nat len" and "set pw \<subseteq> set (concat parts)"
proof -
  have pos: "0 < len"
    using assms by (auto simp: generate_password_def split: if_splits)
  then obtain parts where parts: "build_charset ul uu ud us ex = Inr parts"
    using assms by (cases "build_charset ul uu ud us ex") (auto simp: generate_password_def)
  have ne: "parts \<noteq> []" "\<forall>p \<in> set parts. p \<noteq> []"
    using parts build_charset_with_nonempty unfolding build_charset_def by blast+
  then have pool: "concat parts \<noteq> []" by (cases parts) auto
  have "length pw = nat len \<and> set pw \<subseteq> set (concat parts)"
  proof (cases "len < int (length parts)")
    case True
    have "pw = map (\<lambda>k. concat parts ! (r k mod length (concat parts))) [0..<nat len]"
      using generate_password_short [OF parts pos True, of r] assms by simp
    moreover have "concat parts ! (r k mod length (concat parts)) \<in> set (concat parts)" for k
      using pool by (intro nth_mem) simp
    ultimately show ?thesis by (auto simp del: upt_Suc set_concat)
  next
    case False
    then obtain cs filler pw2 r2 where long:
      "generate_password len ul uu ud us ex r = Inr (pw2, r2)"
      "mset pw2 = mset (cs @ filler)" "list_all2 (\<lambda>c p. c \<in> set p) cs parts"
      "length filler = nat (len - int (length parts))" "set filler \<subseteq> set (concat parts)"
      using generate_password_long [OF parts, of len r] by (meson not_less)
    have pw: "mset pw = mset (cs @ filler)" using long(1,2) assms by simp
    have "length cs = length parts" using long(3) by (simp add: list_all2_lengthD)
    then have "length (cs @ filler) = nat len"
      using long(4) False by simp
    then have l: "length pw = nat len"
      using pw by (metis size_mset)
    have "set cs \<subseteq> set (concat parts)"
    proof
      fix c assume "c \<in> set cs"
      then obtain i where i: "i < length cs" "c = cs ! i"
        by (auto simp: in_set_conv_nth)
      then have "c \<in> set (parts ! i)" "i < length parts"
        using long(3) by (auto simp: list_all2_conv_all_nth)
      then show "c \<in> set (concat parts)" by auto
    qed
    then have "set (cs @ filler) \<subseteq> set (concat parts)" using long(5) by simp
    then have "set pw \<subseteq> set (concat parts)" using pw by (metis set_mset_mset)
    with l show ?thesis by simp
  qed
  then show thesis using that parts pos by blast
qed

lemma generate_password_succeeds:
  assumes "0 < len" and "ul \<or> uu \<or> ud \<or> us"
  shows "\<exists>pw r'. generate_password len ul uu ud us ex r = Inr (pw, r')"
proof -
  obtain parts where parts: "build_charset ul uu ud us ex = Inr parts"
    using build_charset_succeeds [OF assms(2)] by blast
  show ?thesis
  proof (cases "len < int (length parts)")
    case True
    then show ?thesis using generate_password_short [OF parts assms(1)] by blast
  next
    case False
    then show ?thesis using generate_password_long [OF parts, of len r] by (meson not_less)
  qed
qed

lemma build_charset_never_emptied:
  "build_charset ul uu ud us ex \<noteq> Inl AllPoolsEmptied"
proof (cases "ul \<or> uu \<or> ud \<or> us")
  case True
  then show ?thesis using build_charset_succeeds [OF True, of ex] by auto
next
  case False
  then show ?thesis by (simp add: build_charset_def build_charset_no_category)
qed

lemma build_charset_eq:
  "build_charset use_lower use_upper use_digits use_symbols exclude_ambiguous =
     (if \<not> (use_lower \<or> use_upper \<or> use_digits \<or> use_symbols) then Inl NoCategorySelected
      else Inr (map (\<lambda>alphabet. if exclude_ambiguous then remove_ambiguous alphabet
                                 else alphabet)
                  (map snd (filter fst
                     (categories use_lower use_upper use_digits use_symbols)))))"
  unfolding build_charset_def build_charset_with_def categories_def remove_ambiguous_def Let_def
  by (cases use_lower; cases use_upper; cases use_digits; cases use_symbols;
      cases exclude_ambiguous) (simp_all add: unambiguous alphabets_nonempty)

lemma surviving_pools_spec_eq:
  "surviving_pools_spec use_lower use_upper use_digits use_symbols exclude_ambiguous =
     map (\<lambda>alphabet. if exclude_ambiguous then remove_ambiguous alphabet else alphabet)
       (map snd (filter fst (categories use_lower use_upper use_digits use_symbols)))"
  unfolding surviving_pools_spec_def categories_def remove_ambiguous_def
  by (cases use_lower; cases use_upper; cases use_digits; cases use_symbols;
      cases exclude_ambiguous) (simp_all add: unambiguous alphabets_nonempty)

section \<open>The properties of the specification\<close>

subsection \<open>Coverage\<close>

text \<open>
  Claim C1. When at least one category flag is set, \<open>build_charset\<close> returns the pools
  \<open>parts\<close> and the requested length is at least the number of pools, the call returns a
  password, whatever the randomness source draws, and the password has a character of
  every pool.
\<close>

theorem generate_password_coverage:
  assumes "use_lower \<or> use_upper \<or> use_digits \<or> use_symbols"
    and "build_charset use_lower use_upper use_digits use_symbols exclude_ambiguous = Inr parts"
    and "int (length parts) \<le> len"
  shows "\<exists>pw r'. generate_password len use_lower use_upper use_digits use_symbols
                    exclude_ambiguous r = Inr (pw, r') \<and>
                  (\<forall>p \<in> set parts. \<exists>c \<in> set pw. c \<in> set p)"
proof -
  obtain cs filler pw r' where long:
    "generate_password len use_lower use_upper use_digits use_symbols exclude_ambiguous r =
       Inr (pw, r')"
    "mset pw = mset (cs @ filler)" "list_all2 (\<lambda>c p. c \<in> set p) cs parts"
    using generate_password_long [OF assms(2,3)] by blast
  have "\<exists>c \<in> set pw. c \<in> set p" if "p \<in> set parts" for p
  proof -
    from that obtain i where i: "i < length parts" "p = parts ! i"
      by (auto simp: in_set_conv_nth)
    then have "cs ! i \<in> set p" "i < length cs"
      using long(3) by (auto simp: list_all2_conv_all_nth)
    moreover have "set pw = set (cs @ filler)"
      using long(2) by (metis set_mset_mset)
    ultimately show ?thesis by auto
  qed
  with long(1) show ?thesis by blast
qed

theorem generate_password_coverage_witness:
  "build_charset True True True True False =
     Inr [ascii_lowercase, ascii_uppercase, digits, symbols] \<and>
   (\<exists>pw r'. generate_password 4 True True True True False (\<lambda>n. 7 * n + 3) = Inr (pw, r') \<and>
      (\<exists>c \<in> set pw. c \<in> set ascii_lowercase) \<and> (\<exists>c \<in> set pw. c \<in> set ascii_uppercase) \<and>
      (\<exists>c \<in> set pw. c \<in> set digits) \<and> (\<exists>c \<in> set pw. c \<in> set symbols))"
proof -
  have h: "build_charset True True True True False =
      Inr [ascii_lowercase, ascii_uppercase, digits, symbols]"
    by (simp add: build_charset_def build_charset_with_def alphabets_nonempty)
  have l: "int (length [ascii_lowercase, ascii_uppercase, digits, symbols]) \<le> 4"
    by simp
  show ?thesis
    using h generate_password_coverage [OF _ h l, of "\<lambda>n. 7 * n + 3"] by simp
qed

subsection \<open>Alphabet containment\<close>

text \<open>
  Claim C2. Every character of a returned password is a character of one of the pools
  \<open>build_charset\<close> returned, and so a character of the alphabet of a selected category;
  this holds in the branch for a length below the number of pools and in the branch
  with the coverage draws and the shuffle alike.
\<close>

theorem generate_password_alphabet_containment:
  assumes "generate_password len use_lower use_upper use_digits use_symbols
             exclude_ambiguous r = Inr (pw, r')"
  shows "\<exists>parts. build_charset use_lower use_upper use_digits use_symbols exclude_ambiguous =
                    Inr parts \<and>
                  set pw \<subseteq> set (concat parts) \<and>
                  (\<forall>c \<in> set pw. (use_lower \<and> c \<in> set ascii_lowercase) \<or>
                                 (use_upper \<and> c \<in> set ascii_uppercase) \<or>
                                 (use_digits \<and> c \<in> set digits) \<or>
                                 (use_symbols \<and> c \<in> set symbols))"
proof -
  obtain parts where parts:
    "build_charset use_lower use_upper use_digits use_symbols exclude_ambiguous = Inr parts"
    "set pw \<subseteq> set (concat parts)"
    using assms by (rule generate_password_result)
  have "(use_lower \<and> c \<in> set ascii_lowercase) \<or> (use_upper \<and> c \<in> set ascii_uppercase) \<or>
        (use_digits \<and> c \<in> set digits) \<or> (use_symbols \<and> c \<in> set symbols)"
    if "c \<in> set pw" for c
  proof (rule build_charset_with_selected)
    show "build_charset_with AMBIGUOUS use_lower use_upper use_digits use_symbols
            exclude_ambiguous = Inr parts"
      using parts(1) by (simp add: build_charset_def)
    show "c \<in> set (concat parts)" using that parts(2) by blast
  qed
  with parts show ?thesis by blast
qed

theorem generate_password_alphabet_containment_witness:
  "\<exists>r1 r2. generate_password 3 True False True False True (\<lambda>n. 5 * n) = Inr (''7ka'', r1) \<and>
     build_charset True False True False True =
       Inr [''abcdefghijkmnopqrstuvwxyz'', ''23456789''] \<and>
     set ''7ka'' \<subseteq> set (concat [''abcdefghijkmnopqrstuvwxyz'', ''23456789'']) \<and>
     generate_password 1 True False True False True (\<lambda>n. 5 * n + 28) = Inr (''5'', r2) \<and>
     set ''5'' \<subseteq> set (concat [''abcdefghijkmnopqrstuvwxyz'', ''23456789''])"
proof -
  have "map_sum id fst (generate_password 3 True False True False True (\<lambda>n. 5 * n)) =
      Inr ''7ka''"
    by code_simp
  then obtain r1 where
    r1: "generate_password 3 True False True False True (\<lambda>n. 5 * n) = Inr (''7ka'', r1)"
    by (cases "generate_password 3 True False True False True (\<lambda>n. 5 * n)") auto
  have "map_sum id fst (generate_password 1 True False True False True (\<lambda>n. 5 * n + 28)) =
      Inr ''5''"
    by code_simp
  then obtain r2 where
    r2: "generate_password 1 True False True False True (\<lambda>n. 5 * n + 28) = Inr (''5'', r2)"
    by (cases "generate_password 1 True False True False True (\<lambda>n. 5 * n + 28)") auto
  have b: "build_charset True False True False True =
      Inr [''abcdefghijkmnopqrstuvwxyz'', ''23456789'']"
    by (simp add: build_charset_def build_charset_with_def unambiguous)
  show ?thesis
    using generate_password_alphabet_containment [OF r1]
      generate_password_alphabet_containment [OF r2] r1 r2 b by auto
qed

subsection \<open>Length exactness\<close>

text \<open>
  Claim C3. A returned password has exactly the requested length, in both branches.
\<close>

theorem generate_password_length:
  assumes "generate_password len use_lower use_upper use_digits use_symbols
             exclude_ambiguous r = Inr (pw, r')"
  shows "int (length pw) = len"
proof -
  obtain parts :: "string list" where "0 < len" and "length pw = nat len"
    using assms by (rule generate_password_result)
  then show ?thesis by simp
qed

theorem generate_password_length_witness:
  "\<exists>r1 r2. generate_password 3 True True True True False (\<lambda>n. 30 * n) = Inr (''aE8'', r1) \<and>
     int (length ''aE8'') = 3 \<and>
     generate_password 8 True True True True True (\<lambda>n. 11 * n + 2) = Inr (''!cPa_X+2'', r2) \<and>
     int (length ''!cPa_X+2'') = 8"
proof -
  have "map_sum id fst (generate_password 3 True True True True False (\<lambda>n. 30 * n)) =
      Inr ''aE8''"
    by code_simp
  then obtain r1 where
    r1: "generate_password 3 True True True True False (\<lambda>n. 30 * n) = Inr (''aE8'', r1)"
    by (cases "generate_password 3 True True True True False (\<lambda>n. 30 * n)") auto
  have "map_sum id fst (generate_password 8 True True True True True (\<lambda>n. 11 * n + 2)) =
      Inr ''!cPa_X+2''"
    by code_simp
  then obtain r2 where
    r2: "generate_password 8 True True True True True (\<lambda>n. 11 * n + 2) =
           Inr (''!cPa_X+2'', r2)"
    by (cases "generate_password 8 True True True True True (\<lambda>n. 11 * n + 2)") auto
  show ?thesis
    using generate_password_length [OF r1] generate_password_length [OF r2] r1 r2 by blast
qed

subsection \<open>Ambiguous exclusion\<close>

text \<open>
  Claim C4. With \<open>exclude_ambiguous\<close> set, no character of a returned password is in
  \<open>AMBIGUOUS\<close>.
\<close>

theorem generate_password_excludes_ambiguous:
  assumes "generate_password len use_lower use_upper use_digits use_symbols True r =
             Inr (pw, r')"
  shows "set pw \<inter> AMBIGUOUS = {}"
proof -
  obtain parts where parts:
    "build_charset use_lower use_upper use_digits use_symbols True = Inr parts"
    "set pw \<subseteq> set (concat parts)"
    using assms by (rule generate_password_result)
  have "\<forall>p \<in> set parts. set p \<inter> AMBIGUOUS = {}"
    using parts(1) build_charset_with_excluded unfolding build_charset_def by blast
  then have "set (concat parts) \<inter> AMBIGUOUS = {}" by auto
  with parts(2) show ?thesis by blast
qed

theorem generate_password_excludes_ambiguous_witness:
  "\<exists>r'. generate_password 16 True True True True True (\<lambda>n. 7 * n + 3) =
           Inr (''dLGi#P)qx{5bWE3#'', r') \<and>
         set ''dLGi#P)qx{5bWE3#'' \<inter> AMBIGUOUS = {}"
proof -
  have "map_sum id fst (generate_password 16 True True True True True (\<lambda>n. 7 * n + 3)) =
      Inr ''dLGi#P)qx{5bWE3#''"
    by code_simp
  then obtain r' where
    r': "generate_password 16 True True True True True (\<lambda>n. 7 * n + 3) =
           Inr (''dLGi#P)qx{5bWE3#'', r')"
    by (cases "generate_password 16 True True True True True (\<lambda>n. 7 * n + 3)") auto
  show ?thesis
    using generate_password_excludes_ambiguous [OF r'] r' by blast
qed

subsection \<open>No category selected\<close>

text \<open>
  Claim C5. With all four category flags off and a positive length, the call fails with
  the error of \<open>build_charset\<close> for an empty selection, \<open>NoCategorySelected\<close>; the result
  is the error alone, with no password.
\<close>

theorem generate_password_no_category:
  assumes "0 < len"
  shows "generate_password len False False False False exclude_ambiguous r =
           Inl NoCategorySelected \<and>
         build_charset False False False False exclude_ambiguous = Inl NoCategorySelected"
  using assms
  by (simp add: generate_password_def build_charset_def build_charset_no_category)

theorem generate_password_no_category_witness:
  "generate_password 10 False False False False False (\<lambda>n. n) = Inl NoCategorySelected \<and>
   generate_password 10 False False False False True (\<lambda>n. n) = Inl NoCategorySelected"
  using generate_password_no_category [of 10 False "\<lambda>n. n"]
    generate_password_no_category [of 10 True "\<lambda>n. n"]
  by simp

subsection \<open>Invalid length\<close>

text \<open>
  Claim C6. The call fails with \<open>InvalidLength\<close> exactly when the length is zero or
  negative: every such length gives that error, and no positive length does.
\<close>

theorem generate_password_invalid_length:
  "generate_password len use_lower use_upper use_digits use_symbols exclude_ambiguous r =
     Inl InvalidLength \<longleftrightarrow> len \<le> 0"
proof (cases "len \<le> 0")
  case True
  then show ?thesis by (simp add: generate_password_def)
next
  case False
  then have pos: "0 < len" by simp
  show ?thesis
  proof (cases "use_lower \<or> use_upper \<or> use_digits \<or> use_symbols")
    case True
    then show ?thesis
      using generate_password_succeeds [OF pos True, of exclude_ambiguous r] False by auto
  next
    case False
    then show ?thesis
      using pos
      by (simp add: generate_password_def build_charset_def build_charset_no_category)
  qed
qed

theorem generate_password_invalid_length_witness:
  "generate_password 0 True True True True False (\<lambda>n. n) = Inl InvalidLength \<and>
   generate_password (- 5) True False True False True (\<lambda>n. n) = Inl InvalidLength \<and>
   generate_password 1 True True True True False (\<lambda>n. n) \<noteq> Inl InvalidLength \<and>
   generate_password 1 False False False False False (\<lambda>n. n) \<noteq> Inl InvalidLength"
  using generate_password_invalid_length [of 0 True True True True False "\<lambda>n. n"]
    generate_password_invalid_length [of "- 5" True False True False True "\<lambda>n. n"]
    generate_password_invalid_length [of 1 True True True True False "\<lambda>n. n"]
    generate_password_invalid_length [of 1 False False False False False "\<lambda>n. n"]
  by simp

subsection \<open>All pools emptied\<close>

text \<open>
  Claim C7, as amended. When at least one category flag is set and every character of
  every selected alphabet is in the ambiguous set in force, \<open>build_charset_with\<close> fails
  with \<open>AllPoolsEmptied\<close>, an error different from \<open>NoCategorySelected\<close>. With the set the
  module assigns to \<^verbatim>\<open>AMBIGUOUS\<close> no alphabet is emptied, so \<open>build_charset\<close> itself never
  fails with \<open>AllPoolsEmptied\<close>.
\<close>

theorem build_charset_all_pools_emptied:
  assumes "use_lower \<or> use_upper \<or> use_digits \<or> use_symbols"
    and "use_lower \<longrightarrow> set ascii_lowercase \<subseteq> ambiguous"
    and "use_upper \<longrightarrow> set ascii_uppercase \<subseteq> ambiguous"
    and "use_digits \<longrightarrow> set digits \<subseteq> ambiguous"
    and "use_symbols \<longrightarrow> set symbols \<subseteq> ambiguous"
  shows "build_charset_with ambiguous use_lower use_upper use_digits use_symbols True =
           Inl AllPoolsEmptied \<and>
         AllPoolsEmptied \<noteq> NoCategorySelected \<and>
         build_charset use_lower use_upper use_digits use_symbols exclude_ambiguous \<noteq>
           Inl AllPoolsEmptied"
proof -
  have e: "filter (\<lambda>ch. ch \<notin> ambiguous) s = []" if "set s \<subseteq> ambiguous" for s :: string
    using that by (auto simp: filter_empty_conv)
  have "build_charset_with ambiguous use_lower use_upper use_digits use_symbols True =
      Inl AllPoolsEmptied"
    using assms unfolding build_charset_with_def Let_def
    by (cases use_lower; cases use_upper; cases use_digits; cases use_symbols)
      (simp_all add: e)
  then show ?thesis
    using build_charset_never_emptied by simp
qed

theorem build_charset_all_pools_emptied_witness:
  "build_charset_with (set digits) False False True False True = Inl AllPoolsEmptied \<and>
   build_charset_with (set digits) False False False False True = Inl NoCategorySelected \<and>
   build_charset False False True False True = Inr [''23456789'']"
proof -
  have "build_charset False False True False True = Inr [''23456789'']"
    by (simp add: build_charset_def build_charset_with_def digits_unambiguous)
  then show ?thesis
    using build_charset_all_pools_emptied [of False False True False "set digits" True]
    by (simp add: build_charset_no_category)
qed

text \<open>
  Claim C7 as first stated also asks for a request that selects one category and fails
  with \<open>AllPoolsEmptied\<close> under the module's constants. There is none.
\<close>

theorem all_pools_emptied_counterexample:
  "\<not> (\<exists>use_lower use_upper use_digits use_symbols exclude_ambiguous.
        build_charset use_lower use_upper use_digits use_symbols exclude_ambiguous =
          Inl AllPoolsEmptied)"
  using build_charset_never_emptied by blast

subsection \<open>Insufficient length for coverage\<close>

text \<open>
  Claim C8. When \<open>build_charset\<close> returns the pools \<open>parts\<close> and the length is positive and
  below the number of pools, the call succeeds. Its result is the result of the draws
  from the concatenated pools and nothing else: character \<open>k\<close> of the password is the
  character the \<open>k\<close>-th draw selects, so there is no draw per category and no shuffle. The
  password has the requested length and consists of characters of the pools.
\<close>

theorem generate_password_insufficient_length:
  assumes "build_charset use_lower use_upper use_digits use_symbols exclude_ambiguous =
             Inr parts"
    and "0 < len" and "len < int (length parts)"
  shows "\<exists>pw r'. generate_password len use_lower use_upper use_digits use_symbols
                    exclude_ambiguous r = Inr (pw, r') \<and>
           draw_from_pool (concat parts) (nat len) r = Inr (pw, r') \<and>
           pw = map (\<lambda>k. concat parts ! (r k mod length (concat parts))) [0..<nat len] \<and>
           int (length pw) = len \<and> set pw \<subseteq> set (concat parts)"
proof -
  let ?pw = "map (\<lambda>k. concat parts ! (r k mod length (concat parts))) [0..<nat len]"
  have ne: "parts \<noteq> []" "\<forall>p \<in> set parts. p \<noteq> []"
    using assms(1) build_charset_with_nonempty unfolding build_charset_def by blast+
  then have pool: "concat parts \<noteq> []" by (cases parts) auto
  have g: "generate_password len use_lower use_upper use_digits use_symbols
             exclude_ambiguous r = Inr (?pw, \<lambda>k. r (nat len + k))"
    using assms by (rule generate_password_short)
  have d: "draw_from_pool (concat parts) (nat len) r = Inr (?pw, \<lambda>k. r (nat len + k))"
    using pool by (rule draw_from_pool_explicit)
  have "concat parts ! (r k mod length (concat parts)) \<in> set (concat parts)" for k
    using pool by (intro nth_mem) simp
  then have s: "set ?pw \<subseteq> set (concat parts)"
    by (auto simp del: upt_Suc set_concat)
  have l: "int (length ?pw) = len" using assms(2) by simp
  show ?thesis using g d s l by blast
qed

theorem generate_password_insufficient_length_witness:
  "build_charset True True True True False =
     Inr [ascii_lowercase, ascii_uppercase, digits, symbols] \<and>
   (\<exists>r'. generate_password 3 True True True True False (\<lambda>n. 30 * n) = Inr (''aE8'', r')) \<and>
   (\<exists>r'. generate_password 3 True True True True False (\<lambda>n. 0) = Inr (''aaa'', r'))"
proof -
  let ?parts = "[ascii_lowercase, ascii_uppercase, digits, symbols]"
  have h: "build_charset True True True True False = Inr ?parts"
    by (simp add: build_charset_def build_charset_with_def alphabets_nonempty)
  have l: "(3::int) < int (length ?parts)"
    by simp
  have v: "map (\<lambda>k. concat ?parts ! ((\<lambda>n. 30 * n) k mod length (concat ?parts))) [0..<nat 3] =
      ''aE8''"
    by code_simp
  have w: "map (\<lambda>k. concat ?parts ! ((\<lambda>n. 0) k mod length (concat ?parts))) [0..<nat 3] =
      ''aaa''"
    by code_simp
  obtain r1 where "generate_password 3 True True True True False (\<lambda>n. 30 * n) = Inr (''aE8'', r1)"
    using generate_password_insufficient_length [OF h _ l, of "\<lambda>n. 30 * n"]
    unfolding v by auto
  moreover obtain r2 where "generate_password 3 True True True True False (\<lambda>n. 0) = Inr (''aaa'', r2)"
    using generate_password_insufficient_length [OF h _ l, of "\<lambda>n. 0"]
    unfolding w by auto
  ultimately show ?thesis
    using h by blast
qed

subsection \<open>Order and contents of the pools\<close>

text \<open>
  Claim C9. When \<open>build_charset\<close> succeeds, its result is the list of surviving pools as
  the specification describes it: category declaration order, disabled and emptied
  categories skipped, and with exclusion on each pool is its alphabet filtered by
  \<open>AMBIGUOUS\<close>, the remaining characters in their order. With the module's constants no
  enabled category is skipped.
\<close>

theorem build_charset_declaration_order:
  assumes "build_charset use_lower use_upper use_digits use_symbols exclude_ambiguous =
             Inr parts"
  shows "parts = surviving_pools_spec use_lower use_upper use_digits use_symbols
                   exclude_ambiguous \<and>
         parts = map (\<lambda>alphabet. if exclude_ambiguous then remove_ambiguous alphabet
                                  else alphabet)
                   (map snd (filter fst
                      (categories use_lower use_upper use_digits use_symbols)))"
proof -
  have "parts = map (\<lambda>alphabet. if exclude_ambiguous then remove_ambiguous alphabet
                                  else alphabet)
                   (map snd (filter fst
                      (categories use_lower use_upper use_digits use_symbols)))"
    using assms unfolding build_charset_eq by (simp split: if_splits)
  then show ?thesis
    unfolding surviving_pools_spec_eq by simp
qed

theorem build_charset_declaration_order_witness:
  "build_charset True False True True True =
     Inr [''abcdefghijkmnopqrstuvwxyz'', ''23456789'', ''!@#$%^&*()-_=+[]{}<>?/''] \<and>
   surviving_pools_spec True False True True True =
     [''abcdefghijkmnopqrstuvwxyz'', ''23456789'', ''!@#$%^&*()-_=+[]{}<>?/'']"
proof -
  have h: "build_charset True False True True True =
      Inr [''abcdefghijkmnopqrstuvwxyz'', ''23456789'', ''!@#$%^&*()-_=+[]{}<>?/'']"
    by (simp add: build_charset_def build_charset_with_def unambiguous)
      (simp add: symbols_def)
  show ?thesis
    using h build_charset_declaration_order [OF h] by simp
qed

subsection \<open>Length validation comes first\<close>

text \<open>
  Claim C10. For a length that is zero or negative the call fails with \<open>InvalidLength\<close>
  also when all four flags are off: the length is checked before \<open>build_charset\<close> is
  called, whose own error for that selection is \<open>NoCategorySelected\<close>.
\<close>

theorem length_check_precedes_category_check:
  assumes "len \<le> 0"
  shows "generate_password len False False False False exclude_ambiguous r =
           Inl InvalidLength \<and>
         generate_password len False False False False exclude_ambiguous r \<noteq>
           Inl NoCategorySelected \<and>
         build_charset False False False False exclude_ambiguous = Inl NoCategorySelected"
  using assms
  by (simp add: generate_password_def build_charset_def build_charset_no_category)

theorem length_check_precedes_category_check_witness:
  "generate_password 0 False False False False False (\<lambda>n. n) = Inl InvalidLength \<and>
   generate_password 0 False False False False False (\<lambda>n. n) \<noteq> Inl NoCategorySelected \<and>
   build_charset False False False False False = Inl NoCategorySelected"
  using length_check_precedes_category_check [of 0 False "\<lambda>n. n"] by simp

end
